theory Spec2Isabelle
  imports Main "HOL-Library.Sublist"
begin

section \<open>Data model\<close>

text \<open>
  A \<open>KeyFrame\<close> object (class \<open>KeyFrame\<close> of \<open>chapterizer.ts\<close>) has the two number
  fields \<open>pts_time\<close> and \<open>pkt_pos\<close>. Both are only ever set by the constructor, to
  \<open>parseInt\<close> of a run of decimal digits, so they are natural numbers here (the
  JavaScript doubles agree with them below \<open>2^53\<close>).

  JavaScript objects have identity: \<open>Array.prototype.indexOf\<close> compares objects by
  reference. An array of key frames is therefore a list of references into an object
  store, and the store maps each reference to the fields of its object.
\<close>

type_synonym ref = nat

record KeyFrame =
  pts_time :: nat
  pkt_pos :: nat

type_synonym heap = "ref \<Rightarrow> KeyFrame"

text \<open>
  What the code can throw: \<open>Error("couldn't parse framedata")\<close> of the \<open>KeyFrame\<close>
  constructor (the specification's \<open>MalformedRecord\<close>), and the \<open>TypeError\<close> of reading
  a property of \<open>undefined\<close>.
\<close>

datatype error = MalformedRecord | TypeError

section \<open>Numbers in template strings\<close>

text \<open>\<open>`${n}`\<close> for an integer \<open>n\<close>: its decimal digits, with a minus sign when negative.\<close>

definition digit_char :: "nat \<Rightarrow> char" where
  "digit_char d = char_of (48 + d)"

fun show_nat :: "nat \<Rightarrow> string" where
  "show_nat n = (if n < 10 then [digit_char n] else show_nat (n div 10) @ [digit_char (n mod 10)])"

declare show_nat.simps [simp del]

definition show_number :: "int \<Rightarrow> string" where
  "show_number i = (if i < 0 then CHR ''-'' # show_nat (nat (- i)) else show_nat (nat i))"

definition NL :: string where
  "NL = [CHR 0x0A]"

section \<open>Regular expressions\<close>

text \<open>
  The two regular expressions of the source use literals, the classes \<open>.\<close> (with the
  \<open>s\<close> flag: every character, line terminators included) and \<open>\d\<close>, the greedy
  quantifiers \<open>*\<close> and \<open>+\<close> on a class, and capture groups. A pattern is the list of
  its items in order, a group being an \<open>Open\<close> and a \<open>Close\<close> item around its contents.
  Input is ASCII text (the output of \<open>ffprobe\<close>), one \<open>char\<close> per character.
\<close>

datatype cls = AnyChar | Digit

fun in_cls :: "cls \<Rightarrow> char \<Rightarrow> bool" where
  "in_cls AnyChar ch = True"
| "in_cls Digit ch = (ch \<in> set ''0123456789'')"

datatype node = Lit string | One cls | Star cls | Plus cls | Open nat | Close nat

record captures =
  opened :: "nat \<Rightarrow> string"
  groups :: "nat \<Rightarrow> string option"

text \<open>How many leading characters of \<open>t\<close> are in the class: the most a quantifier can take.\<close>

definition run :: "cls \<Rightarrow> string \<Rightarrow> nat" where
  "run k t = length (takeWhile (in_cls k) t)"

text \<open>
  The backtracking matcher of ECMAScript on this fragment. \<open>bt rs t c\<close> matches the items
  \<open>rs\<close> at the start of \<open>t\<close> and returns the text left over with the captures of the
  first successful alternative. A greedy quantifier tries the longest repetition first
  and gives characters back one at a time (\<open>greedy\<close>, down to \<open>lo\<close> repetitions).
  \<open>opened c g\<close> is the input left when group \<open>g\<close> was entered.
\<close>

function (sequential) bt :: "node list \<Rightarrow> string \<Rightarrow> captures \<Rightarrow> (string \<times> captures) option"
  and greedy :: "node list \<Rightarrow> string \<Rightarrow> nat \<Rightarrow> nat \<Rightarrow> captures \<Rightarrow> (string \<times> captures) option"
where
  "bt [] t c = Some (t, c)"
| "bt (Lit l # rs) t c = (if prefix l t then bt rs (drop (length l) t) c else None)"
| "bt (One k # rs) t c =
     (case t of [] \<Rightarrow> None | x # xs \<Rightarrow> if in_cls k x then bt rs xs c else None)"
| "bt (Star k # rs) t c = greedy rs t (run k t) 0 c"
| "bt (Plus k # rs) t c = greedy rs t (run k t) 1 c"
| "bt (Open g # rs) t c = bt rs t (c\<lparr>opened := (opened c)(g := t)\<rparr>)"
| "bt (Close g # rs) t c =
     bt rs t (c\<lparr>groups := (groups c)(g \<mapsto> take (length (opened c g) - length t) (opened c g))\<rparr>)"
| "greedy rs t n lo c =
     (if n < lo then None
      else case bt rs (drop n t) c of
             Some r \<Rightarrow> Some r
           | None \<Rightarrow> if n = 0 then None else greedy rs t (n - 1) lo c)"
  by pat_completeness auto
termination
  by (relation "measures [\<lambda>x. case x of Inl (rs, t, c) \<Rightarrow> 2 * length rs | Inr (rs, t, n, lo, c) \<Rightarrow> 2 * length rs + 1,
                          \<lambda>x. case x of Inl (rs, t, c) \<Rightarrow> 0 | Inr (rs, t, n, lo, c) \<Rightarrow> n]") auto

declare greedy.simps [simp del]

definition no_captures :: captures where
  "no_captures = \<lparr>opened = (\<lambda>_. []), groups = (\<lambda>_. None)\<rparr>"

text \<open>
  \<open>String.prototype.match\<close> with a regular expression without the \<open>g\<close> flag: the match
  at the leftmost start position that has one. \<open>index\<close> is where it starts, \<open>leftover\<close>
  the text after it, \<open>caps\<close> its groups (\<open>matches[1]\<close>, \<open>matches[2]\<close>).
\<close>

record regmatch =
  index :: nat
  leftover :: string
  caps :: "nat \<Rightarrow> string option"

fun exec_from :: "node list \<Rightarrow> string \<Rightarrow> nat \<Rightarrow> regmatch option" where
  "exec_from re t i =
     (case bt re t no_captures of
        Some (t', c) \<Rightarrow> Some \<lparr>index = i, leftover = t', caps = groups c\<rparr>
      | None \<Rightarrow> (case t of [] \<Rightarrow> None | _ # t'' \<Rightarrow> exec_from re t'' (i + 1)))"

declare exec_from.simps [simp del]

definition exec :: "node list \<Rightarrow> string \<Rightarrow> regmatch option" where
  "exec re s = exec_from re s 0"

text \<open>\<open>s.replace(re, "")\<close>: the first match cut out of \<open>s\<close>, or \<open>s\<close> when there is none.\<close>

definition replace_empty :: "node list \<Rightarrow> string \<Rightarrow> string" where
  "replace_empty re s = (case exec re s of None \<Rightarrow> s | Some m \<Rightarrow> take (index m) s @ leftover m)"

text \<open>\<^verbatim>\<open>KeyFrame.frameRegEX = /.*pts_time=(\d+).*pkt_pos=(\d+).*/su\<close>\<close>

definition frameRegEX :: "node list" where
  "frameRegEX =
     [Star AnyChar, Lit ''pts_time='', Open 1, Plus Digit, Close 1,
      Star AnyChar, Lit ''pkt_pos='', Open 2, Plus Digit, Close 2, Star AnyChar]"

text \<open>\<^verbatim>\<open>KeyFrameCollector.frameRegEx = /\[FRAME\](.*key_frame=(\d).*)\[\/FRAME\]/su\<close>\<close>

definition frameRegEx :: "node list" where
  "frameRegEx =
     [Lit ''[FRAME]'', Open 1, Star AnyChar, Lit ''key_frame='', Open 2, One Digit, Close 2,
      Star AnyChar, Close 1, Lit ''[/FRAME]'']"

section \<open>FrameRecord Parser: the \<open>KeyFrame\<close> constructor\<close>

text \<open>
  \<open>parseInt\<close> of a capture of \<open>(\d+)\<close>: a non-empty run of decimal digits, read in
  base ten.
\<close>

definition digit_val :: "char \<Rightarrow> nat" where
  "digit_val ch = of_char ch - 48"

definition parseInt :: "string \<Rightarrow> nat" where
  "parseInt ds = foldl (\<lambda>a ch. 10 * a + digit_val ch) 0 ds"

text \<open>
  \<^verbatim>\<open>
  constructor(frameData: string) {
    const matches = frameData.match(KeyFrame.frameRegEX)
    if (!matches || matches.length < 3) {
      throw new Error("couldn't parse framedata")
    }
    this.pts_time = parseInt(matches[1]);
    this.pkt_pos = parseInt(matches[2]);
  }
  \<close>
\<close>

definition new_KeyFrame :: "string \<Rightarrow> error + KeyFrame" where
  "new_KeyFrame frameData =
     (case exec frameRegEX frameData of
        None \<Rightarrow> Inl MalformedRecord
      | Some matches \<Rightarrow>
          (case (caps matches 1, caps matches 2) of
             (Some g1, Some g2) \<Rightarrow> Inr \<lparr>pts_time = parseInt g1, pkt_pos = parseInt g2\<rparr>
           | _ \<Rightarrow> Inl MalformedRecord))"

section \<open>Chapter Boundary Selector: \<open>KeyFrameCollector.filterFrames\<close>\<close>

text \<open>
  \<^verbatim>\<open>
  filterFrames(): KeyFrame[] {
    const filteredFrames: KeyFrame[] = [];
    let lastFrame: KeyFrame = this.keyFrames[0];
    for (const frame of this.keyFrames) {
      if (frame.pts_time - lastFrame.pts_time > 180) {
        filteredFrames.push(frame)
        lastFrame = frame;
      }
    }
    return filteredFrames;
  }
  \<close>
  \<open>this.keyFrames[0]\<close> of an empty array is \<open>undefined\<close> (\<open>None\<close>); reading \<open>pts_time\<close>
  of it would throw a \<open>TypeError\<close>, which is a branch of the loop body here.
\<close>

fun filter_loop :: "heap \<Rightarrow> ref list \<Rightarrow> ref option \<Rightarrow> ref list \<Rightarrow> error + ref list" where
  "filter_loop h [] lastFrame filteredFrames = Inr filteredFrames"
| "filter_loop h (frame # rest) lastFrame filteredFrames =
     (case lastFrame of
        None \<Rightarrow> Inl TypeError
      | Some l \<Rightarrow>
          if int (pts_time (h frame)) - int (pts_time (h l)) > 180
          then filter_loop h rest (Some frame) (filteredFrames @ [frame])
          else filter_loop h rest lastFrame filteredFrames)"

definition filterFrames :: "heap \<Rightarrow> ref list \<Rightarrow> error + ref list" where
  "filterFrames h kfs =
     filter_loop h kfs (case kfs of [] \<Rightarrow> None | first # _ \<Rightarrow> Some first) []"

section \<open>Chapter Metadata Renderer: \<open>KeyFrameCollection.generateChapterMetadata\<close>\<close>

text \<open>
  \<open>this.keyFrames.indexOf(frame)\<close>: the first index whose element is the same object,
  \<open>-1\<close> when there is none.
\<close>

fun indexOf_from :: "ref list \<Rightarrow> ref \<Rightarrow> int \<Rightarrow> int" where
  "indexOf_from [] frame k = - 1"
| "indexOf_from (x # xs) frame k = (if x = frame then k else indexOf_from xs frame (k + 1))"

definition indexOf :: "ref list \<Rightarrow> ref \<Rightarrow> int" where
  "indexOf xs frame = indexOf_from xs frame 0"

text \<open>
  The body of the \<open>for\<close> loop of \<open>generateChapterMetadata\<close>: the five lines appended
  for \<open>frame\<close>, given \<open>lastFrame\<close> (\<open>None\<close> is \<open>undefined\<close>, the only falsy value it takes).
\<close>

definition chapter_record :: "heap \<Rightarrow> ref list \<Rightarrow> ref option \<Rightarrow> ref \<Rightarrow> string" where
  "chapter_record h kfs lastFrame frame =
     (case lastFrame of
        None \<Rightarrow>
          ''[CHAPTER]'' @ NL @
          ''TIMEBASE=1/1'' @ NL @
          ''START=0'' @ NL @
          ''END='' @ show_number (int (pts_time (h frame))) @ NL @
          ''title=Chapter 1'' @ NL
      | Some l \<Rightarrow>
          ''[CHAPTER]'' @ NL @
          ''TIMEBASE=1/1'' @ NL @
          ''START='' @ show_number (int (pts_time (h l))) @ NL @
          ''END='' @ show_number (int (pts_time (h frame))) @ NL @
          ''title=Chapter '' @ show_number (indexOf kfs frame + 1) @ NL)"

fun chapter_loop :: "heap \<Rightarrow> ref list \<Rightarrow> ref list \<Rightarrow> ref option \<Rightarrow> string \<Rightarrow> string" where
  "chapter_loop h kfs [] lastFrame chapterString = chapterString"
| "chapter_loop h kfs (frame # rest) lastFrame chapterString =
     chapter_loop h kfs rest (Some frame)
       (chapterString @ chapter_record h kfs lastFrame frame)"

definition generateChapterMetadata :: "heap \<Rightarrow> ref list \<Rightarrow> string" where
  "generateChapterMetadata h kfs =
     chapter_loop h kfs kfs None ('';FFMETADATA1'' @ NL)"

section \<open>Keyframe Stream Collector: \<open>KeyFrameCollector\<close>\<close>

text \<open>
  The deferred completion value: a promise settles once, and \<open>resolve\<close> and \<open>reject\<close>
  of a settled promise do nothing. It is fulfilled with a \<open>KeyFrameCollection\<close>, which
  holds nothing but its array of key frames.
\<close>

datatype promise = Pending | Fulfilled "ref list" | Rejected string


definition reject :: "promise \<Rightarrow> string \<Rightarrow> promise" where
  "reject p reason = (case p of Pending \<Rightarrow> Rejected reason | _ \<Rightarrow> p)"

text \<open>
  The state a collector works on: its fields \<open>stringBuffer\<close>, \<open>keyFrames\<close> and
  \<open>completionPromise\<close>, the object store with its next unused reference, and what was
  written to standard output.
\<close>

record collector =
  objects :: heap
  fresh :: ref
  stringBuffer :: string
  keyFrames :: "ref list"
  completionPromise :: promise
  stdout :: string

definition new_KeyFrameCollector :: "heap \<Rightarrow> ref \<Rightarrow> string \<Rightarrow> collector" where
  "new_KeyFrameCollector h next out =
     \<lparr>objects = h, fresh = next, stringBuffer = [], keyFrames = [],
      completionPromise = Pending, stdout = out\<rparr>"

text \<open>\<open>this.keyFrames.push(kf)\<close> for a newly allocated object \<open>kf\<close>.\<close>

definition push_KeyFrame :: "collector \<Rightarrow> KeyFrame \<Rightarrow> collector" where
  "push_KeyFrame c kf =
     c\<lparr>objects := (objects c)(fresh c := kf), fresh := fresh c + 1,
       keyFrames := keyFrames c @ [fresh c]\<rparr>"

text \<open>
  \<^verbatim>\<open>
  write(chunk : Uint8Array, controller: WritableStreamDefaultController) {
    this.stringBuffer += this.textDecoder.decode(chunk)
    let matches: RegExpMatchArray | null;
    while ((matches = this.stringBuffer.match(this.frameRegEx))?.length === 3) {
      // pass on the key frames
      if (matches![2] === "1") {
        this.keyFrames.push(new KeyFrame(matches![1]))
        Deno.stdout.write(this.encoder.encode("."))
      }
      // remove the frame regardless of contents
      this.stringBuffer = this.stringBuffer.replace(this.frameRegEx, "")
    }
  }
  \<close>
  \<open>write_body\<close> is one pass through the body of the loop for the match \<open>matches\<close>:
  \<open>Inl\<close> when the constructor throws (nothing has been changed by then), the state
  after the pass otherwise. A match of \<open>frameRegEx\<close> always has its two groups, so the
  array has length 3 exactly when there is a match.
\<close>

definition write_body :: "collector \<Rightarrow> regmatch \<Rightarrow> error + collector" where
  "write_body c matches =
     (case (if caps matches 2 = Some ''1''
            then (case caps matches 1 of
                    None \<Rightarrow> Inl TypeError
                  | Some frameData \<Rightarrow>
                      (case new_KeyFrame frameData of
                         Inl e \<Rightarrow> Inl e
                       | Inr kf \<Rightarrow> Inr ((push_KeyFrame c kf)\<lparr>stdout := stdout c @ ''.''\<rparr>)))
            else Inr c) of
        Inl e \<Rightarrow> Inl e
      | Inr c' \<Rightarrow> Inr (c'\<lparr>stringBuffer := replace_empty frameRegEx (stringBuffer c')\<rparr>))"

text \<open>How a call ends: it returns, or it throws; either way it leaves a state behind.\<close>

datatype outcome = Returned collector | Threw error collector

subsection \<open>What a match consumes\<close>

lemma greedy_Some:
  "greedy rs t n lo c = Some r \<Longrightarrow>
     \<exists>m. lo \<le> m \<and> m \<le> n \<and> bt rs (drop m t) c = Some r
        \<and> (\<forall>m'. m < m' \<and> m' \<le> n \<longrightarrow> bt rs (drop m' t) c = None)"
proof (induction n)
  case 0
  then show ?case
    by (subst (asm) greedy.simps) (auto split: if_splits option.splits)
next
  case (Suc n)
  show ?case
  proof (cases "bt rs (drop (Suc n) t) c")
    case (Some r')
    with Suc.prems have "r' = r" "lo \<le> Suc n"
      by (subst (asm) greedy.simps, auto split: if_splits)+
    with Some show ?thesis by auto
  next
    case None
    with Suc.prems have g: "greedy rs t n lo c = Some r"
      by (subst (asm) greedy.simps) (auto split: if_splits)
    from Suc.IH [OF g] obtain m where m: "lo \<le> m" "m \<le> n" "bt rs (drop m t) c = Some r"
      "\<forall>m'. m < m' \<and> m' \<le> n \<longrightarrow> bt rs (drop m' t) c = None" by blast
    have "\<forall>m'. m < m' \<and> m' \<le> Suc n \<longrightarrow> bt rs (drop m' t) c = None"
      using m(4) None by (auto simp: le_Suc_eq)
    with m show ?thesis by auto
  qed
qed



text \<open>The least number of characters a pattern matches.\<close>

fun min_len :: "node list \<Rightarrow> nat" where
  "min_len [] = 0"
| "min_len (Lit l # rs) = length l + min_len rs"
| "min_len (One k # rs) = 1 + min_len rs"
| "min_len (Star k # rs) = min_len rs"
| "min_len (Plus k # rs) = 1 + min_len rs"
| "min_len (Open g # rs) = min_len rs"
| "min_len (Close g # rs) = min_len rs"

lemma run_le: "run k t \<le> length t"
  by (simp add: run_def length_takeWhile_le)

lemma bt_consumes:
  "bt rs t c = Some (t', c') \<Longrightarrow> suffix t' t \<and> length t' + min_len rs \<le> length t"
proof (induction rs arbitrary: t c)
  case Nil
  then show ?case by simp
next
  case (Cons r rs)
  show ?case
  proof (cases r)
    case (Lit l)
    with Cons.prems have p: "prefix l t" and b: "bt rs (drop (length l) t) c = Some (t', c')"
      by (auto split: if_splits)
    from Cons.IH [OF b] p Lit show ?thesis
      by (auto intro: suffix_order.trans suffix_drop simp: prefix_def)
  next
    case (One k)
    with Cons.prems obtain x xs where t: "t = x # xs" and b: "bt rs xs c = Some (t', c')"
      by (auto split: list.splits if_splits)
    from Cons.IH [OF b] t One show ?thesis by (auto simp: suffix_Cons)
  next
    case (Star k)
    with Cons.prems have "greedy rs t (run k t) 0 c = Some (t', c')" by simp
    from greedy_Some [OF this] obtain m where "m \<le> run k t" "bt rs (drop m t) c = Some (t', c')"
      by blast
    with Cons.IH [of "drop m t" c] Star show ?thesis
      by (auto intro: suffix_order.trans suffix_drop)
  next
    case (Plus k)
    with Cons.prems have "greedy rs t (run k t) 1 c = Some (t', c')" by simp
    from greedy_Some [OF this] obtain m where m: "1 \<le> m" "m \<le> run k t" "bt rs (drop m t) c = Some (t', c')"
      by blast
    from m(2) run_le [of k t] have "m \<le> length t" by simp
    with Cons.IH [OF m(3)] m(1) Plus show ?thesis
      by (auto intro: suffix_order.trans suffix_drop)
  next
    case (Open g)
    with Cons.prems Cons.IH show ?thesis by simp
  next
    case (Close g)
    with Cons.prems Cons.IH show ?thesis by simp
  qed
qed


lemma exec_from_Some:
  "exec_from re t i = Some m \<Longrightarrow>
     \<exists>j c. j \<le> length t \<and> index m = i + j \<and> bt re (drop j t) no_captures = Some (leftover m, c) \<and> caps m = groups c
        \<and> (\<forall>j' < j. bt re (drop j' t) no_captures = None)"
proof (induction t arbitrary: i)
  case Nil
  then show ?case
    by (subst (asm) exec_from.simps) (auto split: option.splits)
next
  case (Cons x t)
  show ?case
  proof (cases "bt re (x # t) no_captures")
    case None
    with Cons.prems have "exec_from re t (i + 1) = Some m"
      by (subst (asm) exec_from.simps) simp
    from Cons.IH [OF this] obtain j c where j: "j \<le> length t" "index m = i + 1 + j"
      "bt re (drop j t) no_captures = Some (leftover m, c)" "caps m = groups c"
      "\<forall>j' < j. bt re (drop j' t) no_captures = None" by blast
    have "\<forall>j' < Suc j. bt re (drop j' (x # t)) no_captures = None"
    proof (intro allI impI)
      fix j' assume "j' < Suc j"
      then show "bt re (drop j' (x # t)) no_captures = None"
        using None j(5) by (cases j') auto
    qed
    with j show ?thesis
      by (intro exI [of _ "Suc j"] exI [of _ c]) simp
  next
    case (Some r)
    with Cons.prems show ?thesis
      by (subst (asm) exec_from.simps) (auto intro!: exI [of _ 0] split: prod.splits)
  qed
qed


lemma replace_empty_shrinks:
  assumes "exec frameRegEx s = Some m"
  shows "length (replace_empty frameRegEx s) < length s"
proof -
  from assms have "exec_from frameRegEx s 0 = Some m" by (simp add: exec_def)
  from exec_from_Some [OF this] obtain j c where j: "j \<le> length s" "index m = j"
    "bt frameRegEx (drop j s) no_captures = Some (leftover m, c)" by auto
  from bt_consumes [OF j(3)] have "length (leftover m) + min_len frameRegEx \<le> length s - j" by simp
  moreover have "min_len frameRegEx = 26" by (simp add: frameRegEx_def)
  ultimately show ?thesis using assms j(1,2) by (simp add: replace_empty_def)
qed

lemma write_body_shrinks:
  assumes "exec frameRegEx (stringBuffer c) = Some m" and "write_body c m = Inr c'"
  shows "length (stringBuffer c') < length (stringBuffer c)"
proof -
  from assms(2) have "stringBuffer c' = replace_empty frameRegEx (stringBuffer c)"
    by (auto simp: write_body_def push_KeyFrame_def split: if_splits option.splits sum.splits)
  with replace_empty_shrinks [OF assms(1)] show ?thesis by simp
qed

subsection \<open>The loop of \<open>write\<close>, \<open>close\<close> and \<open>abort\<close>\<close>

text \<open>
  Every pass removes a match, which is never empty, so the loop ends. When the
  constructor throws, the exception leaves \<open>write\<close> with the state as it was before
  the pass.
\<close>

function write_loop :: "collector \<Rightarrow> outcome" where
  "write_loop c =
     (case exec frameRegEx (stringBuffer c) of
        None \<Rightarrow> Returned c
      | Some matches \<Rightarrow>
          (case write_body c matches of
             Inl e \<Rightarrow> Threw e c
           | Inr c' \<Rightarrow> write_loop c'))"
  by pat_completeness auto
termination
  by (relation "measure (\<lambda>c. length (stringBuffer c))") (auto simp: write_body_shrinks)

declare write_loop.simps [simp del]

text \<open>\<open>write\<close>; the chunk is given as the text that \<open>textDecoder.decode\<close> makes of it.\<close>

definition write_chunk :: "collector \<Rightarrow> string \<Rightarrow> outcome" where
  "write_chunk c chunk = write_loop (c\<lparr>stringBuffer := stringBuffer c @ chunk\<rparr>)"

text \<open>
  The stream calls \<open>write\<close> once for each chunk, in order, and stops at the first call
  that throws.
\<close>

fun write_all :: "collector \<Rightarrow> string list \<Rightarrow> outcome" where
  "write_all c [] = Returned c"
| "write_all c (chunk # chunks) =
     (case write_chunk c chunk of
        Returned c' \<Rightarrow> write_all c' chunks
      | Threw e c' \<Rightarrow> Threw e c')"


definition abort :: "collector \<Rightarrow> string \<Rightarrow> collector" where
  "abort c reason = c\<lparr>completionPromise := reject (completionPromise c) reason\<rparr>"

section \<open>Properties of the Boundary Selector\<close>

text \<open>The frames selected after the baseline \<open>l\<close>, without the accumulator.\<close>

fun select_from :: "heap \<Rightarrow> ref \<Rightarrow> ref list \<Rightarrow> ref list" where
  "select_from h l [] = []"
| "select_from h l (frame # rest) =
     (if int (pts_time (h frame)) - int (pts_time (h l)) > 180
      then frame # select_from h frame rest
      else select_from h l rest)"

lemma filter_loop_select:
  "filter_loop h fs (Some l) acc = Inr (acc @ select_from h l fs)"
  by (induction fs arbitrary: l acc) simp_all

lemma filterFrames_Nil: "filterFrames h [] = Inr []"
  by (simp add: filterFrames_def)

lemma filterFrames_Cons: "filterFrames h (x # xs) = Inr (select_from h x xs)"
  by (simp add: filterFrames_def filter_loop_select)

lemma select_from_subseq: "subseq (select_from h l fs) fs"
  by (induction fs arbitrary: l) (simp_all add: subseq_Cons2 list_emb_Cons)


lemma select_from_above:
  "f \<in> set (select_from h l fs) \<Longrightarrow> pts_time (h l) + 180 < pts_time (h f)"
proof (induction fs arbitrary: l)
  case Nil
  then show ?case by simp
next
  case (Cons a fs)
  show ?case
  proof (cases "int (pts_time (h a)) - int (pts_time (h l)) > 180")
    case True
    with Cons.prems have "f = a \<or> f \<in> set (select_from h a fs)" by simp
    then show ?thesis
    proof
      assume "f = a" with True show ?thesis by simp
    next
      assume "f \<in> set (select_from h a fs)"
      from Cons.IH [OF this] True show ?thesis by simp
    qed
  next
    case False
    with Cons.prems have "f \<in> set (select_from h l fs)" by simp
    from Cons.IH [OF this] show ?thesis .
  qed
qed

lemma select_from_gaps:
  "successively (\<lambda>a b. a + 180 < b) (map (\<lambda>f. pts_time (h f)) (select_from h l fs))"
proof (induction fs arbitrary: l)
  case Nil
  then show ?case by simp
next
  case (Cons a fs)
  show ?case
  proof (cases "int (pts_time (h a)) - int (pts_time (h l)) > 180")
    case True
    have "successively (\<lambda>a b. a + 180 < b) (pts_time (h a) # map (\<lambda>f. pts_time (h f)) (select_from h a fs))"
    proof (cases "select_from h a fs")
      case Nil
      then show ?thesis by simp
    next
      case (Cons b bs)
      then have "b \<in> set (select_from h a fs)" by simp
      from select_from_above [OF this] Cons.IH [of a] Cons show ?thesis by simp
    qed
    with True show ?thesis by simp
  next
    case False
    with Cons.IH [of l] show ?thesis by simp
  qed
qed

lemma gaps_sorted:
  "successively (\<lambda>a b. a + 180 < b) (ts :: nat list) \<Longrightarrow> sorted_wrt (<) ts"
proof -
  assume "successively (\<lambda>a b. a + 180 < b) ts"
  then have "successively (<) ts"
    by (rule successively_mono) simp_all
  then show ?thesis
    by (simp add: successively_conv_sorted_wrt)
qed

text \<open>
  Claim C3 (threshold invariant). For every key frame sequence \<open>filterFrames\<close> returns
  a list; the timestamps of the list are strictly increasing; each exceeds the one
  before it by more than 180; the list is taken, in order, from the sequence without
  its first element; every selected timestamp exceeds the first element's by more than
  180, so that the first element of the sequence is never in the list.
\<close>

theorem filterFrames_threshold:
  "\<exists>sel. filterFrames h kfs = Inr sel
      \<and> sorted_wrt (<) (map (\<lambda>f. pts_time (h f)) sel)
      \<and> successively (\<lambda>a b. a + 180 < b) (map (\<lambda>f. pts_time (h f)) sel)
      \<and> subseq sel (tl kfs)
      \<and> (\<forall>f \<in> set sel. pts_time (h (hd kfs)) + 180 < pts_time (h f))
      \<and> (kfs \<noteq> [] \<longrightarrow> hd kfs \<notin> set sel)"
proof (cases kfs)
  case Nil
  then show ?thesis by (simp add: filterFrames_Nil)
next
  case (Cons x xs)
  have above: "\<forall>f \<in> set (select_from h x xs). pts_time (h x) + 180 < pts_time (h f)"
    using select_from_above by blast
  then have "x \<notin> set (select_from h x xs)" by auto
  with above Cons show ?thesis
    by (simp add: filterFrames_Cons select_from_gaps gaps_sorted select_from_subseq)
qed

text \<open>An object store holding the given objects at the references \<open>0, 1, 2, ...\<close>\<close>

definition store_of :: "KeyFrame list \<Rightarrow> heap" where
  "store_of kfs r = (if r < length kfs then kfs ! r else \<lparr>pts_time = 0, pkt_pos = 0\<rparr>)"

theorem filterFrames_threshold_witness:
  "filterFrames (store_of [\<lparr>pts_time = 0, pkt_pos = 0\<rparr>, \<lparr>pts_time = 181, pkt_pos = 0\<rparr>,
                           \<lparr>pts_time = 361, pkt_pos = 0\<rparr>, \<lparr>pts_time = 542, pkt_pos = 0\<rparr>])
     [0, 1, 2, 3] = Inr [1, 3]
   \<and> [0, 1, 2, 3 :: ref] \<noteq> []
   \<and> hd [0, 1, 2, 3 :: ref] \<notin> set [1, 3]
   \<and> successively (\<lambda>a b. a + 180 < b) [181, 542 :: nat]"
proof -
  let ?h = "store_of [\<lparr>pts_time = 0, pkt_pos = 0\<rparr>, \<lparr>pts_time = 181, pkt_pos = 0\<rparr>,
                      \<lparr>pts_time = 361, pkt_pos = 0\<rparr>, \<lparr>pts_time = 542, pkt_pos = 0\<rparr>]"
  from filterFrames_threshold [of ?h "[0, 1, 2, 3]"] obtain sel
    where sel: "filterFrames ?h [0, 1, 2, 3] = Inr sel"
      and gaps: "successively (\<lambda>a b. a + 180 < b) (map (\<lambda>f. pts_time (?h f)) sel)"
      and first: "[0, 1, 2, 3 :: ref] \<noteq> [] \<longrightarrow> hd [0, 1, 2, 3 :: ref] \<notin> set sel"
    by blast
  have "filterFrames ?h [0, 1, 2, 3] = Inr [1, 3]"
    by (simp add: filterFrames_def store_of_def)
  with sel have "sel = [1, 3]" by simp
  with sel gaps first show ?thesis by (simp add: store_of_def)
qed

lemma show_nat_examples:
  "show_nat 200 = ''200''" "show_nat 400 = ''400''" "show_nat 2 = ''2''"
  by code_simp+

text \<open>
  Claim C4. For key frames with the timestamps 0, 50, 200, 210, 400 (whatever their
  byte offsets), \<open>filterFrames\<close> selects exactly the third and the fifth, with the
  timestamps 200 and 400, and \<open>generateChapterMetadata\<close> renders the selection as two
  chapter records: \<open>START=0\<close>, \<open>END=200\<close> and \<open>START=200\<close>, \<open>END=400\<close>.
\<close>

theorem example_selection:
  "filterFrames
     (store_of [\<lparr>pts_time = 0, pkt_pos = p0\<rparr>, \<lparr>pts_time = 50, pkt_pos = p1\<rparr>,
                \<lparr>pts_time = 200, pkt_pos = p2\<rparr>, \<lparr>pts_time = 210, pkt_pos = p3\<rparr>,
                \<lparr>pts_time = 400, pkt_pos = p4\<rparr>]) [0, 1, 2, 3, 4] = Inr [2, 4]
   \<and> generateChapterMetadata
     (store_of [\<lparr>pts_time = 0, pkt_pos = p0\<rparr>, \<lparr>pts_time = 50, pkt_pos = p1\<rparr>,
                \<lparr>pts_time = 200, pkt_pos = p2\<rparr>, \<lparr>pts_time = 210, pkt_pos = p3\<rparr>,
                \<lparr>pts_time = 400, pkt_pos = p4\<rparr>]) [2, 4] =
       '';FFMETADATA1'' @ NL @
       ''[CHAPTER]'' @ NL @ ''TIMEBASE=1/1'' @ NL @ ''START=0'' @ NL @ ''END=200'' @ NL @
       ''title=Chapter 1'' @ NL @
       ''[CHAPTER]'' @ NL @ ''TIMEBASE=1/1'' @ NL @ ''START=200'' @ NL @ ''END=400'' @ NL @
       ''title=Chapter 2'' @ NL"
  by (simp add: filterFrames_def generateChapterMetadata_def chapter_record_def store_of_def
      indexOf_def show_number_def show_nat_examples)

text \<open>
  Claim C5. For every key frame sequence with fewer than two elements \<open>filterFrames\<close>
  returns the empty list (it does not throw), and \<open>generateChapterMetadata\<close> of the
  empty selection is the header line alone.
\<close>

theorem few_frames:
  "(length kfs < 2 \<longrightarrow> filterFrames h kfs = Inr [])
   \<and> generateChapterMetadata h [] = '';FFMETADATA1'' @ NL"
proof -
  have "filterFrames h kfs = Inr []" if "length kfs < 2"
  proof (cases kfs)
    case Nil
    then show ?thesis by (simp add: filterFrames_def)
  next
    case (Cons x xs)
    with that have "xs = []" by simp
    with Cons show ?thesis by (simp add: filterFrames_def)
  qed
  then show ?thesis by (simp add: generateChapterMetadata_def)
qed

theorem few_frames_witness:
  "length [7 :: ref] < 2 \<and> filterFrames (\<lambda>_. \<lparr>pts_time = 500, pkt_pos = 0\<rparr>) [7] = Inr []
   \<and> filterFrames (\<lambda>_. \<lparr>pts_time = 500, pkt_pos = 0\<rparr>) [] = Inr []
   \<and> generateChapterMetadata (\<lambda>_. \<lparr>pts_time = 500, pkt_pos = 0\<rparr>) [] = '';FFMETADATA1'' @ NL"
  using few_frames [of "[7]" "\<lambda>_. \<lparr>pts_time = 500, pkt_pos = 0\<rparr>"]
    few_frames [of "[]" "\<lambda>_. \<lparr>pts_time = 500, pkt_pos = 0\<rparr>"]
  by simp

section \<open>Properties of the Collector\<close>


text \<open>A collector as its constructor leaves it, in a store without objects.\<close>

definition initial_collector :: collector where
  "initial_collector = new_KeyFrameCollector (\<lambda>_. \<lparr>pts_time = 0, pkt_pos = 0\<rparr>) 0 []"






text \<open>The key frames a call leaves in the collector, as values.\<close>

definition frames_of :: "outcome \<Rightarrow> KeyFrame list" where
  "frames_of r =
     (case r of
        Returned c \<Rightarrow> map (objects c) (keyFrames c)
      | Threw e c \<Rightarrow> map (objects c) (keyFrames c))"

definition two_blocks :: string where
  "two_blocks =
     ''[FRAME]key_frame=1 pts_time=0 pkt_pos=1[/FRAME][FRAME]key_frame=1 pts_time=200 pkt_pos=2[/FRAME]''"

text \<open>
  Claim C1 (chunk-boundary independence) at the text \<open>two_blocks\<close>, two complete
  key frame blocks one after the other. Fed as a single chunk it leaves one key frame,
  that of the second block: \<open>.*\<close> is greedy, so the first match of \<open>frameRegEx\<close> runs
  from the first \<open>[FRAME]\<close> to the last \<open>[/FRAME]\<close> in the buffer, and the constructor
  reads the last \<open>pts_time\<close> and \<open>pkt_pos\<close> of that text. Fed one character at a time
  it leaves the key frames of both blocks.
\<close>

theorem single_chunk_merges_blocks:
  "frames_of (write_all initial_collector [two_blocks]) = [\<lparr>pts_time = 200, pkt_pos = 2\<rparr>]
   \<and> frames_of (write_all initial_collector (map (\<lambda>ch. [ch]) two_blocks))
       = [\<lparr>pts_time = 0, pkt_pos = 1\<rparr>, \<lparr>pts_time = 200, pkt_pos = 2\<rparr>]"
proof
  show "frames_of (write_all initial_collector [two_blocks]) = [\<lparr>pts_time = 200, pkt_pos = 2\<rparr>]"
    by code_simp
  show "frames_of (write_all initial_collector (map (\<lambda>ch. [ch]) two_blocks))
       = [\<lparr>pts_time = 0, pkt_pos = 1\<rparr>, \<lparr>pts_time = 200, pkt_pos = 2\<rparr>]"
    by code_simp
qed





section \<open>Properties of the FrameRecord Parser\<close>





























section \<open>Properties of the Renderer\<close>

text \<open>The text of one chapter record, from the numbers in it.\<close>

definition record_text :: "nat option \<Rightarrow> nat \<Rightarrow> int \<Rightarrow> string" where
  "record_text start end_time title =
     ''[CHAPTER]'' @ NL @
     ''TIMEBASE=1/1'' @ NL @
     ''START='' @ (case start of None \<Rightarrow> ''0'' | Some s \<Rightarrow> show_nat s) @ NL @
     ''END='' @ show_nat end_time @ NL @
     ''title=Chapter '' @ (case start of None \<Rightarrow> ''1'' | Some s \<Rightarrow> show_number title) @ NL"

fun render_records :: "nat option \<Rightarrow> (nat \<times> int) list \<Rightarrow> string" where
  "render_records start [] = []"
| "render_records start ((t, k) # xs) = record_text start t k @ render_records (Some t) xs"

lemma show_number_nat: "show_number (int n) = show_nat n"
  by (simp add: show_number_def)

lemma chapter_record_text:
  "chapter_record h kfs lastFrame frame =
     record_text (map_option (\<lambda>l. pts_time (h l)) lastFrame) (pts_time (h frame)) (indexOf kfs frame + 1)"
  by (cases lastFrame) (simp_all add: chapter_record_def record_text_def show_number_nat)

lemma chapter_loop_render:
  "chapter_loop h kfs fs lastFrame s =
     s @ render_records (map_option (\<lambda>l. pts_time (h l)) lastFrame)
           (map (\<lambda>f. (pts_time (h f), indexOf kfs f + 1)) fs)"
  by (induction fs arbitrary: lastFrame s) (simp_all add: chapter_record_text)

lemma generateChapterMetadata_render:
  "generateChapterMetadata h kfs =
     '';FFMETADATA1'' @ NL @ render_records None (map (\<lambda>f. (pts_time (h f), indexOf kfs f + 1)) kfs)"
  by (simp add: generateChapterMetadata_def chapter_loop_render)
























section \<open>Byte offsets\<close>

lemma indexOf_from_first:
  "frame \<notin> set pre \<Longrightarrow> indexOf_from (pre @ frame # post) frame k = k + int (length pre)"
  by (induction pre arbitrary: k) auto

lemma indexOf_distinct:
  assumes "distinct kfs" and "i < length kfs"
  shows "indexOf kfs (kfs ! i) = int i"
proof -
  from assms(2) have split: "kfs = take i kfs @ kfs ! i # drop (Suc i) kfs"
    by (rule id_take_nth_drop)
  with assms(1) have "distinct (take i kfs @ kfs ! i # drop (Suc i) kfs)" by simp
  then have "kfs ! i \<notin> set (take i kfs)" by simp
  from indexOf_from_first [OF this, of "drop (Suc i) kfs" 0] split assms(2)
  show ?thesis by (simp add: indexOf_def)
qed

lemma titles_distinct:
  assumes "distinct kfs"
  shows "map (\<lambda>f. indexOf kfs f + 1) kfs = map (\<lambda>i. int i + 1) [0..<length kfs]"
  using assms by (auto intro!: nth_equalityI simp: indexOf_distinct)

lemma map_pair_zip: "map (\<lambda>f. (g f, k f)) xs = zip (map g xs) (map k xs)"
  by (induction xs) simp_all

lemma document_of_distinct:
  assumes "distinct kfs"
  shows "generateChapterMetadata h kfs =
     '';FFMETADATA1'' @ NL @
     render_records None (zip (map (\<lambda>f. pts_time (h f)) kfs) (map (\<lambda>i. int i + 1) [0..<length kfs]))"
  by (simp only: generateChapterMetadata_render map_pair_zip titles_distinct [OF assms])

lemma document_cong:
  assumes "map (\<lambda>f. pts_time (h1 f)) rs1 = map (\<lambda>f. pts_time (h2 f)) rs2"
    and "distinct rs1" and "distinct rs2"
  shows "generateChapterMetadata h1 rs1 = generateChapterMetadata h2 rs2"
proof -
  from assms(1) have "length rs1 = length rs2" by (metis length_map)
  with assms show ?thesis by (simp add: document_of_distinct)
qed

text \<open>The selection of \<open>select_from\<close> on a list of pairs, by the first components.\<close>

fun select_pairs :: "heap \<Rightarrow> ref \<Rightarrow> (ref \<times> ref) list \<Rightarrow> (ref \<times> ref) list" where
  "select_pairs h l [] = []"
| "select_pairs h l (z # zs) =
     (if int (pts_time (h (fst z))) - int (pts_time (h l)) > 180
      then z # select_pairs h (fst z) zs
      else select_pairs h l zs)"

lemma select_pairs_fst: "map fst (select_pairs h l zs) = select_from h l (map fst zs)"
  by (induction zs arbitrary: l) simp_all

lemma select_pairs_snd:
  assumes "pts_time (h1 l) = pts_time (h2 l')"
    and "\<forall>(a, b) \<in> set zs. pts_time (h1 a) = pts_time (h2 b)"
  shows "map snd (select_pairs h1 l zs) = select_from h2 l' (map snd zs)"
  using assms by (induction zs arbitrary: l l') (auto split: prod.splits)

lemma select_pairs_subseq: "subseq (select_pairs h l zs) zs"
  by (induction zs arbitrary: l) (simp_all add: subseq_Cons2 list_emb_Cons)

lemma select_pairs_subset: "set (select_pairs h l zs) \<subseteq> set zs"
  by (induction zs arbitrary: l) auto

lemma select_from_subset: "set (select_from h l fs) \<subseteq> set fs"
  by (induction fs arbitrary: l) auto

lemma select_from_distinct: "distinct fs \<Longrightarrow> distinct (select_from h l fs)"
proof (induction fs arbitrary: l)
  case Nil
  then show ?case by simp
next
  case (Cons a fs)
  with select_from_subset [of h a fs] show ?case by auto
qed

text \<open>
  Claim C10 (byte offsets do not interfere). Take two arrays of distinct key frame
  objects, of equal length, whose elements have pairwise the same \<open>pts_time\<close>; nothing
  is asked of \<open>pkt_pos\<close>. Then \<open>filterFrames\<close> selects the same positions in both (the
  selections are the two sides of one subsequence of the paired arrays), with the same
  timestamps, and \<open>generateChapterMetadata\<close> renders the same document for the two
  selections, and for the two arrays.
\<close>

theorem byte_offsets_do_not_interfere:
  assumes "length rs1 = length rs2"
    and "\<forall>(a, b) \<in> set (zip rs1 rs2). pts_time (h1 a) = pts_time (h2 b)"
    and "distinct rs1" and "distinct rs2"
  shows "(\<exists>sel. subseq sel (zip rs1 rs2)
            \<and> filterFrames h1 rs1 = Inr (map fst sel)
            \<and> filterFrames h2 rs2 = Inr (map snd sel)
            \<and> map (\<lambda>f. pts_time (h1 f)) (map fst sel) = map (\<lambda>f. pts_time (h2 f)) (map snd sel)
            \<and> generateChapterMetadata h1 (map fst sel) = generateChapterMetadata h2 (map snd sel))
       \<and> generateChapterMetadata h1 rs1 = generateChapterMetadata h2 rs2"
proof -
  have whole: "map (\<lambda>f. pts_time (h1 f)) rs1 = map (\<lambda>f. pts_time (h2 f)) rs2"
  proof (rule nth_equalityI)
    show "length (map (\<lambda>f. pts_time (h1 f)) rs1) = length (map (\<lambda>f. pts_time (h2 f)) rs2)"
      using assms(1) by simp
  next
    fix i assume "i < length (map (\<lambda>f. pts_time (h1 f)) rs1)"
    with assms(1) have i: "i < length rs1" "i < length rs2" by simp_all
    then have "(rs1 ! i, rs2 ! i) \<in> set (zip rs1 rs2)"
      by (metis length_zip min_less_iff_conj nth_mem nth_zip)
    with assms(2) i show "map (\<lambda>f. pts_time (h1 f)) rs1 ! i = map (\<lambda>f. pts_time (h2 f)) rs2 ! i"
      by auto
  qed
  from whole assms(3,4) have docs: "generateChapterMetadata h1 rs1 = generateChapterMetadata h2 rs2"
    by (rule document_cong)
  have "\<exists>sel. subseq sel (zip rs1 rs2)
            \<and> filterFrames h1 rs1 = Inr (map fst sel)
            \<and> filterFrames h2 rs2 = Inr (map snd sel)
            \<and> map (\<lambda>f. pts_time (h1 f)) (map fst sel) = map (\<lambda>f. pts_time (h2 f)) (map snd sel)
            \<and> generateChapterMetadata h1 (map fst sel) = generateChapterMetadata h2 (map snd sel)"
  proof (cases rs1)
    case Nil
    with assms(1) have "rs2 = []" by simp
    with Nil show ?thesis
      by (intro exI [of _ "[]"]) (simp add: filterFrames_Nil generateChapterMetadata_def)
  next
    case (Cons x1 xs1)
    with assms(1) obtain x2 xs2 where rs2: "rs2 = x2 # xs2" and len: "length xs1 = length xs2"
      by (cases rs2) simp_all
    let ?zs = "zip xs1 xs2"
    let ?sel = "select_pairs h1 x1 ?zs"
    from assms(2) Cons rs2 have x: "pts_time (h1 x1) = pts_time (h2 x2)"
      and zs: "\<forall>(a, b) \<in> set ?zs. pts_time (h1 a) = pts_time (h2 b)" by auto
    from len have proj: "map fst ?zs = xs1" "map snd ?zs = xs2" by simp_all
    have f1: "filterFrames h1 rs1 = Inr (map fst ?sel)"
      by (simp add: Cons filterFrames_Cons select_pairs_fst proj)
    have f2: "filterFrames h2 rs2 = Inr (map snd ?sel)"
      by (simp add: rs2 filterFrames_Cons select_pairs_snd [OF x zs] proj)
    have sub: "subseq ?sel (zip rs1 rs2)"
      using select_pairs_subseq [of h1 x1 ?zs] by (simp add: Cons rs2 list_emb_Cons)
    have "\<forall>(a, b) \<in> set ?sel. pts_time (h1 a) = pts_time (h2 b)"
      using zs select_pairs_subset [of h1 x1 ?zs] by blast
    then have ts: "map (\<lambda>f. pts_time (h1 f)) (map fst ?sel) = map (\<lambda>f. pts_time (h2 f)) (map snd ?sel)"
      by (induction ?sel) auto
    from assms(3) Cons have "distinct (map fst ?sel)"
      by (simp add: select_pairs_fst proj select_from_distinct)
    moreover from assms(4) rs2 have "distinct (map snd ?sel)"
      by (simp add: select_pairs_snd [OF x zs] proj select_from_distinct)
    ultimately have "generateChapterMetadata h1 (map fst ?sel) = generateChapterMetadata h2 (map snd ?sel)"
      using ts by (intro document_cong)
    with sub f1 f2 ts show ?thesis by blast
  qed
  with docs show ?thesis by simp
qed

theorem byte_offsets_do_not_interfere_witness:
  "filterFrames (store_of [\<lparr>pts_time = 0, pkt_pos = 1\<rparr>, \<lparr>pts_time = 200, pkt_pos = 2\<rparr>, \<lparr>pts_time = 400, pkt_pos = 3\<rparr>])
      [0, 1, 2] = Inr [1, 2]
   \<and> filterFrames (store_of [\<lparr>pts_time = 400, pkt_pos = 96\<rparr>, \<lparr>pts_time = 200, pkt_pos = 97\<rparr>, \<lparr>pts_time = 0, pkt_pos = 98\<rparr>])
      [2, 1, 0] = Inr [1, 0]
   \<and> generateChapterMetadata (store_of [\<lparr>pts_time = 0, pkt_pos = 1\<rparr>, \<lparr>pts_time = 200, pkt_pos = 2\<rparr>, \<lparr>pts_time = 400, pkt_pos = 3\<rparr>]) [1, 2]
     = generateChapterMetadata (store_of [\<lparr>pts_time = 400, pkt_pos = 96\<rparr>, \<lparr>pts_time = 200, pkt_pos = 97\<rparr>, \<lparr>pts_time = 0, pkt_pos = 98\<rparr>]) [1, 0]"
proof -
  let ?h1 = "store_of [\<lparr>pts_time = 0, pkt_pos = 1\<rparr>, \<lparr>pts_time = 200, pkt_pos = 2\<rparr>, \<lparr>pts_time = 400, pkt_pos = 3\<rparr>]"
  let ?h2 = "store_of [\<lparr>pts_time = 400, pkt_pos = 96\<rparr>, \<lparr>pts_time = 200, pkt_pos = 97\<rparr>, \<lparr>pts_time = 0, pkt_pos = 98\<rparr>]"
  have 1: "length [0, 1, 2 :: ref] = length [2, 1, 0 :: ref]" by simp
  have 2: "\<forall>(a, b) \<in> set (zip [0, 1, 2] [2, 1, 0]). pts_time (?h1 a) = pts_time (?h2 b)"
    by (simp add: store_of_def)
  have 3: "distinct [0, 1, 2 :: ref]" and 4: "distinct [2, 1, 0 :: ref]" by simp_all
  have f1: "filterFrames ?h1 [0, 1, 2] = Inr [1, 2]" by (simp add: filterFrames_def store_of_def)
  have f2: "filterFrames ?h2 [2, 1, 0] = Inr [1, 0]" by (simp add: filterFrames_def store_of_def)
  from byte_offsets_do_not_interfere [OF 1 2 3 4] obtain sel
    where "filterFrames ?h1 [0, 1, 2] = Inr (map fst sel)" "filterFrames ?h2 [2, 1, 0] = Inr (map snd sel)"
      "generateChapterMetadata ?h1 (map fst sel) = generateChapterMetadata ?h2 (map snd sel)"
    by blast
  with f1 f2 show ?thesis by simp
qed

end
